theory Spec2Isabelle
  imports Main
begin

section \<open>Project Trishul: report submission and analysis polling\<close>

text \<open>
  The development embeds two pieces of the front end:
  \<^item> \<^verbatim>\<open>pollDisasterAnalysis\<close> of \<^verbatim>\<open>services/api.js\<close>, the timer-driven poller;
  \<^item> \<^verbatim>\<open>handleSubmit\<close> of \<^verbatim>\<open>App.js\<close>, which validates a draft, posts it and starts a
    poll session whose sink updates the component state.

  JavaScript runs the code on one thread. An \<^verbatim>\<open>async\<close> callback runs from its start to
  its first \<^verbatim>\<open>await\<close> without interruption, and its continuation runs, again without
  interruption, when the awaited promise settles. The environment therefore decides only
  the order of three kinds of event: time passing, the interval timer firing, and the
  response of a pending request arriving. A run of a session is a list of such events.
\<close>

subsection \<open>Data\<close>

text \<open>The report object the server returns; the poller and the sink read \<^verbatim>\<open>status\<close> only.\<close>

record disaster =
  disaster_id :: nat
  disaster_type :: string
  address :: string
  status :: string

text \<open>
  How the promise returned by \<^verbatim>\<open>getDisaster(id)\<close> settles. \<open>Resolved b\<close>: it resolves and
  \<^verbatim>\<open>response.data\<close> is \<open>b\<close>, \<open>Some d\<close> for a report object and \<open>None\<close> for \<^verbatim>\<open>null\<close>, of which
  no property can be read. \<open>Rejected\<close>: it rejects, and the \<^verbatim>\<open>await\<close> throws.
\<close>

datatype reply = Resolved "disaster option" | Rejected

text \<open>
  How a call of \<^verbatim>\<open>onUpdate\<close> ends: it returns or it throws, and either way leaves a state
  behind.
\<close>

datatype 'u called = Returned 'u | Threw 'u

fun left :: "'u called \<Rightarrow> 'u" where
  "left (Returned w) = w"
| "left (Threw w) = w"

text \<open>
  The closure of one call of \<^verbatim>\<open>pollDisasterAnalysis\<close>: its parameters, its counter
  \<^verbatim>\<open>attempts\<close> and the timer \<^verbatim>\<open>interval\<close>, together with what the runtime holds for it.
  \<^item> \<open>interval\<close> is \<open>Some t\<close> while the timer is armed and next due at time \<open>t\<close> (in
    milliseconds), \<open>None\<close> once \<^verbatim>\<open>clearInterval\<close> has run.
  \<^item> \<open>pending\<close> lists the requests awaiting their response, each named by the tick
    (the value of \<^verbatim>\<open>attempts\<close>) that issued it.
  \<^item> \<open>world\<close> is the state \<^verbatim>\<open>onUpdate\<close> acts on.
  \<^item> \<open>maxAttempts\<close> and \<open>attempts\<close> are counts, hence natural numbers.
  \<^item> \<open>delivered\<close> records every invocation of \<^verbatim>\<open>onUpdate\<close>, in order, with the tick whose
    request produced the snapshot; \<open>console\<close> records \<^verbatim>\<open>console.error\<close>.
\<close>

record 'u session =
  disasterId :: nat
  onUpdate :: "disaster option \<Rightarrow> 'u \<Rightarrow> 'u called"
  maxAttempts :: nat
  attempts :: nat
  interval :: "nat option"
  pending :: "nat list"
  clock :: nat
  world :: 'u
  delivered :: "(nat \<times> disaster option) list"
  console :: "string list"

subsection \<open>The poller\<close>

definition clearInterval :: "'u session \<Rightarrow> 'u session" where
  "clearInterval s = s\<lparr>interval := None\<rparr>"

text \<open>
  \<^verbatim>\<open>pollDisasterAnalysis(disasterId, onUpdate, maxAttempts = 20)\<close>: sets \<^verbatim>\<open>attempts\<close> to 0,
  arms the timer with \<^verbatim>\<open>setInterval(callback, 3000)\<close> and returns. The third argument is
  optional; \<open>now\<close> is the time of the call and \<open>w\<close> the state the sink acts on.
\<close>

definition pollDisasterAnalysis ::
  "nat \<Rightarrow> (disaster option \<Rightarrow> 'u \<Rightarrow> 'u called) \<Rightarrow> nat option \<Rightarrow> nat \<Rightarrow> 'u \<Rightarrow> 'u session"
  where
  "pollDisasterAnalysis i f m now w =
     \<lparr>disasterId = i, onUpdate = f,
      maxAttempts = (case m of None \<Rightarrow> 20 | Some n \<Rightarrow> n),
      attempts = 0, interval = Some (now + 3000), pending = [],
      clock = now, world = w, delivered = [], console = []\<rparr>"

text \<open>
  The callback up to its \<^verbatim>\<open>await\<close>: \<^verbatim>\<open>attempts++\<close>, then \<^verbatim>\<open>getDisaster(disasterId)\<close> is
  called and the callback suspends on the promise.
\<close>

definition tick_begin :: "'u session \<Rightarrow> 'u session" where
  "tick_begin s =
     s\<lparr>attempts := attempts s + 1, pending := pending s @ [attempts s + 1]\<rparr>"

text \<open>The \<^verbatim>\<open>catch\<close> block: \<^verbatim>\<open>console.error\<close>, then \<^verbatim>\<open>clearInterval(interval)\<close>.\<close>

definition catch_block :: "'u session \<Rightarrow> 'u session" where
  "catch_block s = clearInterval (s\<lparr>console := console s @ [''Polling error:'']\<rparr>)"

text \<open>
  The callback after its \<^verbatim>\<open>await\<close>, for the request issued by tick \<open>k\<close>. Everything here
  is inside the \<^verbatim>\<open>try\<close>, so each throw ends in the \<^verbatim>\<open>catch\<close> block:
  \<^item> a rejected request throws at the \<^verbatim>\<open>await\<close>, before \<^verbatim>\<open>onUpdate\<close>;
  \<^item> on a response \<^verbatim>\<open>onUpdate(disaster)\<close> is called, and may throw;
  \<^item> then \<^verbatim>\<open>disaster.status\<close> is read, which throws when the body is \<^verbatim>\<open>null\<close>;
  \<^item> then \<^verbatim>\<open>if (disaster.status === 'analyzed' || attempts >= maxAttempts)
    clearInterval(interval)\<close>, with \<^verbatim>\<open>attempts\<close> read now, not when the tick began.
\<close>

definition tick_resume :: "nat \<Rightarrow> reply \<Rightarrow> 'u session \<Rightarrow> 'u session" where
  "tick_resume k r s =
     (case r of
        Rejected \<Rightarrow> catch_block s
      | Resolved b \<Rightarrow>
          (let s1 = s\<lparr>delivered := delivered s @ [(k, b)]\<rparr>
           in case onUpdate s b (world s) of
                Threw w \<Rightarrow> catch_block (s1\<lparr>world := w\<rparr>)
              | Returned w \<Rightarrow>
                  (case b of
                     None \<Rightarrow> catch_block (s1\<lparr>world := w\<rparr>)
                   | Some d \<Rightarrow>
                       if status d = ''analyzed'' \<or> maxAttempts s \<le> attempts s
                       then clearInterval (s1\<lparr>world := w\<rparr>)
                       else s1\<lparr>world := w\<rparr>)))"

subsection \<open>The event loop\<close>

text \<open>
  \<^item> \<open>Elapse n\<close>: \<open>n\<close> milliseconds pass.
  \<^item> \<open>Timer\<close>: the runtime runs the interval callback. It does so only while the timer is
    armed and due, and then re-arms it 3000 ms later; nothing in this rule looks at
    \<open>pending\<close>, as nothing in \<^verbatim>\<open>setInterval\<close> waits for the promise of an earlier callback.
  \<^item> \<open>Response k r\<close>: the request of tick \<open>k\<close> settles with \<open>r\<close>.
  \<^item> \<open>Stop\<close>: the holder of the handle calls \<^verbatim>\<open>clearInterval(handle)\<close>. The handle
    \<^verbatim>\<open>pollDisasterAnalysis\<close> returns is the identifier of its interval timer; the source
    has no other operation on it, and this call is what stopping a session amounts to.
  An event that cannot occur in the current state (the timer is not due, the request is
  not pending) leaves the state as it is.
\<close>

datatype event = Elapse nat | Timer | Response nat reply | Stop

definition timer_due :: "'u session \<Rightarrow> bool" where
  "timer_due s = (case interval s of None \<Rightarrow> False | Some t \<Rightarrow> t \<le> clock s)"

fun step :: "event \<Rightarrow> 'u session \<Rightarrow> 'u session" where
  "step (Elapse n) s = s\<lparr>clock := clock s + n\<rparr>"
| "step Timer s =
     (if timer_due s then tick_begin (s\<lparr>interval := Some (clock s + 3000)\<rparr>) else s)"
| "step (Response k r) s =
     (if k \<in> set (pending s) then tick_resume k r (s\<lparr>pending := remove1 k (pending s)\<rparr>)
      else s)"
| "step Stop s = clearInterval s"

primrec run :: "event list \<Rightarrow> 'u session \<Rightarrow> 'u session" where
  "run [] s = s"
| "run (e # es) s = run es (step e s)"

text \<open>
  A run is \<open>in_turn\<close> when the timer never fires while a request is pending: every
  response arrives within the 3000 ms before the next tick.
\<close>

fun in_turn :: "event list \<Rightarrow> 'u session \<Rightarrow> bool" where
  "in_turn [] s = True"
| "in_turn (Timer # es) s =
     ((if timer_due s then pending s = [] else True) \<and> in_turn es (step Timer s))"
| "in_turn (e # es) s = in_turn es (step e s)"

text \<open>
  The run in which tick \<open>k + 1\<close>, \<open>k + 2\<close>, ... each fire 3000 ms after the one before
  and the request of each settles, with the next reply of the list, before anything else
  happens.
\<close>

fun on_time :: "nat \<Rightarrow> reply list \<Rightarrow> event list" where
  "on_time k [] = []"
| "on_time k (r # rs) = [Elapse 3000, Timer, Response (Suc k) r] @ on_time (Suc k) rs"

subsection \<open>The submit handler\<close>

text \<open>
  The state \<^verbatim>\<open>draft\<close> of the form; its field \<^verbatim>\<open>keywords\<close> is \<open>keywords_found\<close> here.
\<close>

record draft =
  location :: string
  description :: string
  predicted :: string
  confidence :: string
  keywords_found :: string

text \<open>
  A request handed to axios: \<^verbatim>\<open>reportDisaster(data)\<close> posts the object \<open>data\<close>, kept here as
  its fields in the order the object literal lists them; \<^verbatim>\<open>getActiveDisasters()\<close> takes
  no data.
\<close>

datatype request = Post_disasters "(string \<times> string) list" | Get_active_disasters

text \<open>The component state \<^verbatim>\<open>handleSubmit\<close> reads and writes, and the requests it issued.\<close>

record app =
  form :: draft
  saved :: bool
  view :: string
  submitting :: bool
  submitError :: string
  analysisResult :: "disaster option"
  analyzing :: bool
  sent :: "request list"
  errors :: "string list"

text \<open>\<^verbatim>\<open>a || b\<close> on strings: the empty string is the only falsy string.\<close>

definition or_else :: "string \<Rightarrow> string \<Rightarrow> string" where
  "or_else a b = (if a \<noteq> [] then a else b)"

definition reportDisaster :: "(string \<times> string) list \<Rightarrow> app \<Rightarrow> app" where
  "reportDisaster body a = a\<lparr>sent := sent a @ [Post_disasters body]\<rparr>"

text \<open>
  \<^verbatim>\<open>fetchActiveDisasters\<close> issues the request; the list it stores when the response arrives
  is not part of this state.
\<close>

definition fetchActiveDisasters :: "app \<Rightarrow> app" where
  "fetchActiveDisasters a = a\<lparr>sent := sent a @ [Get_active_disasters]\<rparr>"

definition resetDraft :: "app \<Rightarrow> app" where
  "resetDraft a =
     a\<lparr>form := \<lparr>location = [], description = [], predicted = [], confidence = [],
                 keywords_found = []\<rparr>,
       submitError := []\<rparr>"

text \<open>
  The arrow function \<^verbatim>\<open>handleSubmit\<close> passes to the poller as \<^verbatim>\<open>onUpdate\<close>:
  \<^verbatim>\<open>setAnalysisResult(disaster)\<close>, then the test \<^verbatim>\<open>disaster.status === "analyzed"\<close>, which
  throws for a \<^verbatim>\<open>null\<close> body.
\<close>

definition sink :: "disaster option \<Rightarrow> app \<Rightarrow> app called" where
  "sink b a =
     (let a1 = a\<lparr>analysisResult := b\<rparr>
      in case b of
           None \<Rightarrow> Threw a1
         | Some d \<Rightarrow>
             Returned (if status d = ''analyzed''
                       then fetchActiveDisasters (a1\<lparr>analyzing := False\<rparr>) else a1))"

text \<open>
  \<^verbatim>\<open>updateDraft(field, value)\<close>, the \<^verbatim>\<open>onChange\<close> handler of the form's inputs:
  \<^verbatim>\<open>setDraft({ ...draft, [field]: value }); setSaved(false)\<close>.
\<close>

datatype field = Location | Description | Predicted | Confidence | Keywords

definition updateDraft :: "field \<Rightarrow> string \<Rightarrow> app \<Rightarrow> app" where
  "updateDraft fld v a =
     a\<lparr>form := (case fld of
                   Location \<Rightarrow> (form a)\<lparr>location := v\<rparr>
                 | Description \<Rightarrow> (form a)\<lparr>description := v\<rparr>
                 | Predicted \<Rightarrow> (form a)\<lparr>predicted := v\<rparr>
                 | Confidence \<Rightarrow> (form a)\<lparr>confidence := v\<rparr>
                 | Keywords \<Rightarrow> (form a)\<lparr>keywords_found := v\<rparr>),
       saved := False\<rparr>"

text \<open>
  The three ways \<^verbatim>\<open>handleSubmit\<close> ends: the early \<^verbatim>\<open>return\<close> of the location check, the
  \<^verbatim>\<open>catch\<close> block, and the \<^verbatim>\<open>try\<close> block run to its end with a poll session started.
\<close>

datatype outcome = Invalid app | Failed app | Polling "app session"

text \<open>
  \<open>resp\<close> is how the post settles: \<open>Some i\<close> for a response whose \<^verbatim>\<open>data.disaster_id\<close> is
  \<open>i\<close>, \<open>None\<close> for a rejection. \<open>now\<close> is the time at which the response is handled.
  \<^verbatim>\<open>setSubmitting(false)\<close> of the \<^verbatim>\<open>finally\<close> block runs last on both paths.
\<close>

definition handleSubmit :: "nat option \<Rightarrow> nat \<Rightarrow> app \<Rightarrow> outcome" where
  "handleSubmit resp now a =
     (if location (form a) = [] then Invalid (a\<lparr>submitError := ''Please enter a location.''\<rparr>)
      else
        let a1 = a\<lparr>submitting := True, submitError := [], analysisResult := None\<rparr>;
            a2 = reportDisaster
                   [(''disaster_type'', or_else (predicted (form a)) ''fire''),
                    (''address'', location (form a)),
                    (''description'', description (form a))] a1
        in case resp of
             Some i \<Rightarrow>
               (let a3 = (resetDraft (a2\<lparr>analyzing := True\<rparr>))\<lparr>view := ''analysis''\<rparr>;
                    s = pollDisasterAnalysis i sink None now a3
                in Polling (s\<lparr>world := (world s)\<lparr>submitting := False\<rparr>\<rparr>))
           | None \<Rightarrow>
               Failed (a2\<lparr>errors := errors a2 @ [''Failed to report incident:''],
                          submitError := ''Failed to report incident. Is the backend running?'',
                          submitting := False\<rparr>))"

text \<open>The component state an outcome leaves.\<close>

fun ui :: "outcome \<Rightarrow> app" where
  "ui (Invalid a) = a"
| "ui (Failed a) = a"
| "ui (Polling s) = world s"

text \<open>
  The session an outcome started, if any, and the outcome after that session has handled a
  list of events.
\<close>

fun sessions :: "outcome \<Rightarrow> app session list" where
  "sessions (Polling s) = [s]"
| "sessions (Invalid a) = []"
| "sessions (Failed a) = []"

fun poll :: "event list \<Rightarrow> outcome \<Rightarrow> outcome" where
  "poll evs (Polling s) = Polling (run evs s)"
| "poll evs (Invalid a) = Invalid a"
| "poll evs (Failed a) = Failed a"

subsection \<open>Bookkeeping and sample data\<close>

text \<open>The ticks a session still names: those whose snapshot was delivered, then those pending.\<close>

definition ticks_of :: "'u session \<Rightarrow> nat list" where
  "ticks_of s = map fst (delivered s) @ pending s"

text \<open>Whether the body passed to \<^verbatim>\<open>onUpdate\<close> is a report whose status is \<^verbatim>\<open>analyzed\<close>.\<close>

definition is_analyzed :: "disaster option \<Rightarrow> bool" where
  "is_analyzed b = (case b of None \<Rightarrow> False | Some d \<Rightarrow> status d = ''analyzed'')"

text \<open>Ticks that fire one after the other, 3000 ms apart, while no response arrives.\<close>

fun unanswered :: "nat \<Rightarrow> event list" where
  "unanswered 0 = []"
| "unanswered (Suc j) = [Elapse 3000, Timer] @ unanswered j"

text \<open>A report with a given status, a sink that counts its calls, and a filled-in form.\<close>

definition report_with :: "string \<Rightarrow> disaster" where
  "report_with st = \<lparr>disaster_id = 7, disaster_type = ''fire'', address = ''123 Main St'', status = st\<rparr>"

definition count_calls :: "disaster option \<Rightarrow> nat \<Rightarrow> nat called" where
  "count_calls b n = Returned (Suc n)"

definition new_incident :: "string \<Rightarrow> string \<Rightarrow> app" where
  "new_incident loc pred =
     \<lparr>form = \<lparr>location = loc, description = ''smoke on the second floor'', predicted = pred,
               confidence = ''80'', keywords_found = ''smoke''\<rparr>,
      saved = False, view = ''new'', submitting = False, submitError = [], analysisResult = None,
      analyzing = False, sent = [], errors = []\<rparr>"

section \<open>Properties of the poller\<close>

subsection \<open>Facts about single events and runs\<close>

lemmas poll_defs = clearInterval_def catch_block_def tick_begin_def tick_resume_def timer_due_def

lemma clock_step: "clock s \<le> clock (step e s)"
  by (cases e) (auto simp: poll_defs Let_def split: reply.splits called.splits option.splits)

lemma clock_run: "clock s \<le> clock (run evs s)"
proof (induction evs arbitrary: s)
  case Nil
  show ?case by simp
next
  case (Cons e evs)
  have "clock s \<le> clock (step e s)" by (rule clock_step)
  also have "\<dots> \<le> clock (run evs (step e s))" by (rule Cons.IH)
  finally show ?case by simp
qed

lemma run_append: "run (xs @ ys) s = run ys (run xs s)"
  by (induction xs arbitrary: s) auto

lemma cleared_step: "interval s = None \<Longrightarrow> interval (step e s) = None \<and> attempts (step e s) = attempts s"
  by (cases e) (auto simp: poll_defs Let_def split: reply.splits called.splits option.splits)

lemma cleared_run:
  "interval s = None \<Longrightarrow> interval (run evs s) = None \<and> attempts (run evs s) = attempts s"
proof (induction evs arbitrary: s)
  case Nil
  then show ?case by simp
next
  case (Cons e evs)
  from Cons.prems have "interval (step e s) = None" and "attempts (step e s) = attempts s"
    using cleared_step by blast+
  with Cons.IH [of "step e s"] show ?case by simp
qed

lemma ledger_step:
  "length (delivered (step e s)) + length (pending (step e s)) + attempts s
     \<le> length (delivered s) + length (pending s) + attempts (step e s)"
proof (cases e)
  case (Response k r)
  show ?thesis
  proof (cases "k \<in> set (pending s)")
    case True
    then have "0 < length (pending s)" by (rule length_pos_if_in_set)
    with True Response show ?thesis
      by (auto simp: poll_defs Let_def length_remove1 split: reply.splits called.splits option.splits)
  next
    case False
    with Response show ?thesis by simp
  qed
qed (auto simp: poll_defs)

lemma ledger_run:
  "length (delivered (run evs s)) + length (pending (run evs s)) + attempts s
     \<le> length (delivered s) + length (pending s) + attempts (run evs s)"
proof (induction evs arbitrary: s)
  case Nil
  show ?case by simp
next
  case (Cons e evs)
  from ledger_step [of e s] Cons.IH [of "step e s"] show ?case by simp
qed


lemma quiet_step:
  assumes "attempts s = 0" and "pending s = []" and "delivered s = []" and "world s = w"
    and "interval s = None \<or> interval s = Some t" and "clock s < t"
  shows "attempts (step e s) = 0 \<and> pending (step e s) = [] \<and> delivered (step e s) = []
    \<and> world (step e s) = w \<and> (interval (step e s) = None \<or> interval (step e s) = Some t)"
  using assms by (cases e) (auto simp: poll_defs)

lemma quiet_run:
  assumes "attempts s = 0" and "pending s = []" and "delivered s = []" and "world s = w"
    and "interval s = None \<or> interval s = Some t" and "clock (run evs s) < t"
  shows "attempts (run evs s) = 0 \<and> pending (run evs s) = [] \<and> delivered (run evs s) = []
    \<and> world (run evs s) = w"
  using assms
proof (induction evs arbitrary: s)
  case Nil
  then show ?case by simp
next
  case (Cons e evs)
  have "clock s \<le> clock (step e s)" by (rule clock_step)
  also have "\<dots> \<le> clock (run evs (step e s))" by (rule clock_run)
  also have "\<dots> < t" using Cons.prems(6) by simp
  finally have now: "clock s < t" .
  have q: "attempts (step e s) = 0 \<and> pending (step e s) = [] \<and> delivered (step e s) = []
    \<and> world (step e s) = w \<and> (interval (step e s) = None \<or> interval (step e s) = Some t)"
    using Cons.prems(1-5) now by (rule quiet_step)
  have "clock (run evs (step e s)) < t" using Cons.prems(6) by simp
  with q Cons.IH [of "step e s"] show ?case by simp
qed

lemmas run_defs = pollDisasterAnalysis_def poll_defs report_with_def count_calls_def Let_def

lemma maxAttempts_step: "maxAttempts (step e s) = maxAttempts s"
  by (cases e) (auto simp: poll_defs Let_def split: reply.splits called.splits option.splits)

lemma maxAttempts_run: "maxAttempts (run evs s) = maxAttempts s"
  by (induction evs arbitrary: s) (simp_all add: maxAttempts_step)

lemma delivered_step: "length (delivered s) \<le> length (delivered (step e s))"
  by (cases e) (auto simp: poll_defs Let_def split: reply.splits called.splits option.splits)

lemma delivered_run: "length (delivered s) \<le> length (delivered (run evs s))"
proof (induction evs arbitrary: s)
  case Nil
  show ?case by simp
next
  case (Cons e evs)
  from delivered_step [of s e] Cons.IH [of "step e s"] show ?case by simp
qed

lemma cleared_quota:
  assumes "interval s = None"
  shows "length (delivered (run evs s)) + length (pending (run evs s))
    \<le> length (delivered s) + length (pending s)"
  using ledger_run [of evs s] cleared_run [OF assms, of evs] by simp

lemma ended_run:
  assumes "interval s = None" and "pending s = []"
  shows "length (delivered (run evs s)) = length (delivered s) \<and> pending (run evs s) = []
    \<and> interval (run evs s) = None \<and> attempts (run evs s) = attempts s"
proof -
  have le: "length (delivered (run evs s)) + length (pending (run evs s)) \<le> length (delivered s)"
    using cleared_quota [OF assms(1), of evs] assms(2) by simp
  have ge: "length (delivered s) \<le> length (delivered (run evs s))" by (rule delivered_run)
  from le ge have "length (delivered (run evs s)) = length (delivered s)" by linarith
  moreover from le ge have "length (pending (run evs s)) = 0" by linarith
  ultimately show ?thesis using cleared_run [OF assms(1), of evs] by simp
qed

lemma console_step: "\<exists>ys. console (step e s) = console s @ ys"
  by (cases e) (auto simp: poll_defs Let_def split: reply.splits called.splits option.splits)

lemma console_run: "\<exists>ys. console (run evs s) = console s @ ys"
proof (induction evs arbitrary: s)
  case Nil
  show ?case by simp
next
  case (Cons e evs)
  from console_step [of e s] obtain ys where "console (step e s) = console s @ ys" ..
  moreover from Cons.IH [of "step e s"] obtain zs
    where "console (run evs (step e s)) = console (step e s) @ zs" ..
  ultimately show ?case by simp
qed

lemma delivered_set_step: "set (delivered s) \<subseteq> set (delivered (step e s))"
  by (cases e) (auto simp: poll_defs Let_def split: reply.splits called.splits option.splits)

lemma delivered_set_run: "set (delivered s) \<subseteq> set (delivered (run evs s))"
proof (induction evs arbitrary: s)
  case Nil
  show ?case by simp
next
  case (Cons e evs)
  from delivered_set_step [of s e] Cons.IH [of "step e s"] show ?case by auto
qed

lemma one_call_step: "length (delivered (step e s)) \<le> Suc (length (delivered s))"
  by (cases e) (auto simp: poll_defs Let_def split: reply.splits called.splits option.splits)

lemma unanswered_run:
  assumes "interval s = Some t" and "t \<le> clock s + 3000"
  shows "pending (run (unanswered j) s) = pending s @ [Suc (attempts s)..<Suc (attempts s + j)]
    \<and> attempts (run (unanswered j) s) = attempts s + j"
  using assms
proof (induction j arbitrary: s t)
  case 0
  then show ?case by simp
next
  case (Suc j)
  define s2 where "s2 = run [Elapse 3000, Timer] s"
  have s2: "interval s2 = Some (clock s2 + 3000)" "attempts s2 = Suc (attempts s)"
    "pending s2 = pending s @ [Suc (attempts s)]"
    using Suc.prems by (simp_all add: s2_def poll_defs)
  have "pending (run (unanswered j) s2) = pending s2 @ [Suc (attempts s2)..<Suc (attempts s2 + j)]
    \<and> attempts (run (unanswered j) s2) = attempts s2 + j"
    by (rule Suc.IH [OF s2(1)]) simp
  moreover have "run (unanswered (Suc j)) s = run (unanswered j) s2"
    by (simp add: s2_def)
  moreover have "[Suc (attempts s)..<Suc (attempts s + Suc j)]
      = Suc (attempts s) # [Suc (Suc (attempts s))..<Suc (Suc (attempts s) + j)]"
    by (simp add: upt_conv_Cons)
  ultimately show ?case using s2 by simp
qed

subsection \<open>Ticks are named once\<close>

lemma named_step:
  assumes "distinct (ticks_of s)" and "\<forall>k\<in>set (ticks_of s). k \<le> attempts s"
  shows "distinct (ticks_of (step e s)) \<and> (\<forall>k\<in>set (ticks_of (step e s)). k \<le> attempts (step e s))"
proof (cases e)
  case (Response k r)
  show ?thesis
  proof (cases "k \<in> set (pending s)")
    case True
    from assms(1) have d: "distinct (map fst (delivered s))" "distinct (pending s)"
      "set (map fst (delivered s)) \<inter> set (pending s) = {}"
      by (simp_all add: ticks_of_def)
    from d(2) have out: "k \<notin> set (remove1 k (pending s))" by simp
    from d(3) True have fresh: "k \<notin> set (map fst (delivered s))" by blast
    have sub: "set (remove1 k (pending s)) \<subseteq> set (pending s)" by (rule set_remove1_subset)
    from d fresh out sub have "distinct (map fst (delivered s) @ [k] @ remove1 k (pending s))"
      by (auto simp: distinct_remove1)
    moreover have "\<forall>j\<in>set (map fst (delivered s) @ [k] @ remove1 k (pending s)). j \<le> attempts s"
      using assms(2) True sub by (auto simp: ticks_of_def)
    moreover have "distinct (map fst (delivered s) @ remove1 k (pending s))"
      using d sub by (auto simp: distinct_remove1)
    ultimately show ?thesis using Response True
      by (cases r) (auto simp: ticks_of_def poll_defs Let_def split: called.splits option.splits)
  next
    case False
    with Response assms show ?thesis by simp
  qed
next
  case Timer
  show ?thesis
  proof (cases "timer_due s")
    case True
    have "Suc (attempts s) \<notin> set (ticks_of s)" using assms(2) by auto
    then have "distinct (ticks_of s @ [Suc (attempts s)])" using assms(1) by simp
    moreover have "\<forall>k\<in>set (ticks_of s @ [Suc (attempts s)]). k \<le> Suc (attempts s)"
      using assms(2) by auto
    ultimately show ?thesis using Timer True by (simp add: ticks_of_def tick_begin_def)
  next
    case False
    with Timer assms show ?thesis by simp
  qed
qed (use assms in \<open>auto simp: ticks_of_def poll_defs\<close>)

lemma named_run:
  assumes "distinct (ticks_of s)" and "\<forall>k\<in>set (ticks_of s). k \<le> attempts s"
  shows "distinct (ticks_of (run evs s)) \<and> (\<forall>k\<in>set (ticks_of (run evs s)). k \<le> attempts (run evs s))"
  using assms
proof (induction evs arbitrary: s)
  case Nil
  then show ?case by simp
next
  case (Cons e evs)
  from named_step [OF Cons.prems, of e] Cons.IH [of "step e s"] show ?case by simp
qed

lemma named_start:
  "distinct (ticks_of (pollDisasterAnalysis i f m now w))"
  "\<forall>k\<in>set (ticks_of (pollDisasterAnalysis i f m now w)). k \<le> attempts (pollDisasterAnalysis i f m now w)"
  by (simp_all add: ticks_of_def pollDisasterAnalysis_def)

lemma gone_step:
  assumes "k \<le> attempts s" and "k \<notin> set (ticks_of s)"
  shows "k \<le> attempts (step e s) \<and> k \<notin> set (ticks_of (step e s))"
proof (cases e)
  case (Response j r)
  have "set (remove1 j (pending s)) \<subseteq> set (pending s)" by (rule set_remove1_subset)
  with assms Response show ?thesis
    by (cases r) (auto simp: ticks_of_def poll_defs Let_def split: called.splits option.splits)
qed (use assms in \<open>auto simp: ticks_of_def poll_defs\<close>)

lemma gone_run:
  assumes "k \<le> attempts s" and "k \<notin> set (ticks_of s)"
  shows "k \<notin> set (ticks_of (run evs s))"
  using assms
proof (induction evs arbitrary: s)
  case Nil
  then show ?case by simp
next
  case (Cons e evs)
  from gone_step [OF Cons.prems, of e] Cons.IH [of "step e s"] show ?case by simp
qed

subsection \<open>Runs in which no tick overtakes a response\<close>

lemma in_turn_Cons: "in_turn (e # es) s = (in_turn [e] s \<and> in_turn es (step e s))"
  by (cases e) auto

lemma turn_step:
  assumes "sorted_wrt (<) (ticks_of s)" and "\<forall>k\<in>set (ticks_of s). k \<le> attempts s"
    and "length (pending s) \<le> 1" and "in_turn [e] s"
  shows "sorted_wrt (<) (ticks_of (step e s)) \<and> (\<forall>k\<in>set (ticks_of (step e s)). k \<le> attempts (step e s))
    \<and> length (pending (step e s)) \<le> 1"
proof (cases e)
  case (Response k r)
  show ?thesis
  proof (cases "k \<in> set (pending s)")
    case True
    with assms(3) have p: "pending s = [k]" by (cases "pending s") auto
    with assms(1,2) Response True show ?thesis
      by (cases r) (auto simp: ticks_of_def poll_defs Let_def sorted_wrt_append split: called.splits option.splits)
  next
    case False
    with Response assms show ?thesis by simp
  qed
next
  case Timer
  show ?thesis
  proof (cases "timer_due s")
    case True
    with assms(4) Timer have p: "pending s = []" by simp
    have "\<forall>k\<in>set (ticks_of s). k < Suc (attempts s)" using assms(2) by auto
    then have "sorted_wrt (<) (ticks_of s @ [Suc (attempts s)])"
      using assms(1) by (simp add: sorted_wrt_append)
    moreover have "\<forall>k\<in>set (ticks_of s @ [Suc (attempts s)]). k \<le> Suc (attempts s)"
      using assms(2) by auto
    ultimately show ?thesis using Timer True p by (simp add: ticks_of_def tick_begin_def)
  next
    case False
    with Timer assms show ?thesis by simp
  qed
qed (use assms in \<open>auto simp: ticks_of_def poll_defs\<close>)

lemma turn_run:
  assumes "sorted_wrt (<) (ticks_of s)" and "\<forall>k\<in>set (ticks_of s). k \<le> attempts s"
    and "length (pending s) \<le> 1" and "in_turn evs s"
  shows "sorted_wrt (<) (ticks_of (run evs s)) \<and> length (pending (run evs s)) \<le> 1"
  using assms
proof (induction evs arbitrary: s)
  case Nil
  then show ?case by simp
next
  case (Cons e evs)
  from Cons.prems(4) have e: "in_turn [e] s" and es: "in_turn evs (step e s)"
    using in_turn_Cons by blast+
  from turn_step [OF Cons.prems(1-3) e] Cons.IH [of "step e s"] es show ?case by simp
qed

lemma budget_step:
  assumes "length (pending s) \<le> 1" and "attempts s \<le> max 1 (maxAttempts s)"
    and "interval s \<noteq> None \<and> pending s = [] \<longrightarrow> attempts s = 0 \<or> attempts s < maxAttempts s"
    and "in_turn [e] s"
  shows "length (pending (step e s)) \<le> 1 \<and> attempts (step e s) \<le> max 1 (maxAttempts (step e s))
    \<and> (interval (step e s) \<noteq> None \<and> pending (step e s) = [] \<longrightarrow>
         attempts (step e s) = 0 \<or> attempts (step e s) < maxAttempts (step e s))"
proof (cases e)
  case (Response k r)
  show ?thesis
  proof (cases "k \<in> set (pending s)")
    case True
    with assms(1) have "pending s = [k]" by (cases "pending s") auto
    with assms(2) Response True show ?thesis
      by (cases r) (auto simp: poll_defs Let_def split: called.splits option.splits)
  next
    case False
    with Response assms show ?thesis by simp
  qed
next
  case Timer
  show ?thesis
  proof (cases "timer_due s")
    case True
    with assms(4) Timer have p: "pending s = []" by simp
    from True have "interval s \<noteq> None" by (auto simp: timer_due_def split: option.splits)
    with assms(3) p have "attempts s = 0 \<or> attempts s < maxAttempts s" by simp
    with Timer True p show ?thesis by (auto simp: tick_begin_def)
  next
    case False
    with Timer assms show ?thesis by simp
  qed
qed (use assms in \<open>auto simp: poll_defs\<close>)

lemma budget_run:
  assumes "length (pending s) \<le> 1" and "attempts s \<le> max 1 (maxAttempts s)"
    and "interval s \<noteq> None \<and> pending s = [] \<longrightarrow> attempts s = 0 \<or> attempts s < maxAttempts s"
    and "in_turn evs s"
  shows "attempts (run evs s) \<le> max 1 (maxAttempts s)"
  using assms
proof (induction evs arbitrary: s)
  case Nil
  then show ?case by simp
next
  case (Cons e evs)
  from Cons.prems(4) have e: "in_turn [e] s" and es: "in_turn evs (step e s)"
    using in_turn_Cons by blast+
  from budget_step [OF Cons.prems(1-3) e] Cons.IH [of "step e s"] es
  show ?case by (simp add: maxAttempts_step)
qed

lemma on_time_run:
  assumes "attempts s = k" and "pending s = []" and "interval s = Some t"
    and "t \<le> clock s + 3000" and "k = 0 \<or> k < maxAttempts s"
    and "\<forall>r\<in>set rs. \<exists>d. r = Resolved (Some d) \<and> status d \<noteq> ''analyzed''"
    and "max 1 (maxAttempts s) \<le> k + length rs"
    and "\<forall>b w. \<exists>w'. onUpdate s b w = Returned w'"
  shows "length (delivered (run (on_time k rs) s)) + k = length (delivered s) + max 1 (maxAttempts s)
    \<and> interval (run (on_time k rs) s) = None \<and> pending (run (on_time k rs) s) = []
    \<and> attempts (run (on_time k rs) s) = max 1 (maxAttempts s)"
  using assms
proof (induction rs arbitrary: s k t)
  case Nil
  then show ?case by auto
next
  case (Cons r rs)
  from Cons.prems(6) obtain d where r: "r = Resolved (Some d)" and d: "status d \<noteq> ''analyzed''"
    by auto
  from Cons.prems(8) obtain w' where w': "onUpdate s (Some d) (world s) = Returned w'"
    by blast
  define s3 where "s3 = run [Elapse 3000, Timer, Response (Suc k) r] s"
  have run: "run (on_time k (r # rs)) s = run (on_time (Suc k) rs) s3"
    by (simp add: s3_def)
  have s3: "attempts s3 = Suc k" "pending s3 = []" "clock s3 = clock s + 3000"
    "length (delivered s3) = Suc (length (delivered s))" "maxAttempts s3 = maxAttempts s"
    "interval s3 = (if maxAttempts s \<le> Suc k then None else Some (clock s3 + 3000))"
    "onUpdate s3 = onUpdate s"
    using Cons.prems(1-4) r d w' by (simp_all add: s3_def poll_defs Let_def)
  show ?case
  proof (cases "maxAttempts s \<le> Suc k")
    case True
    with s3 have "interval s3 = None" by simp
    from ended_run [OF this s3(2), of "on_time (Suc k) rs"] s3 True Cons.prems(5)
    show ?thesis unfolding run by auto
  next
    case False
    have "length (delivered (run (on_time (Suc k) rs) s3)) + Suc k
        = length (delivered s3) + max 1 (maxAttempts s3)
      \<and> interval (run (on_time (Suc k) rs) s3) = None \<and> pending (run (on_time (Suc k) rs) s3) = []
      \<and> attempts (run (on_time (Suc k) rs) s3) = max 1 (maxAttempts s3)"
    proof (rule Cons.IH)
      show "attempts s3 = Suc k" by (rule s3)
      show "pending s3 = []" by (rule s3)
      show "interval s3 = Some (clock s3 + 3000)" using s3 False by simp
      show "clock s3 + 3000 \<le> clock s3 + 3000" by simp
      show "Suc k = 0 \<or> Suc k < maxAttempts s3" using s3 False by simp
      show "\<forall>r\<in>set rs. \<exists>d. r = Resolved (Some d) \<and> status d \<noteq> ''analyzed''"
        using Cons.prems(6) by simp
      show "max 1 (maxAttempts s3) \<le> Suc k + length rs" using Cons.prems(7) s3 by simp
      show "\<forall>b w. \<exists>w'. onUpdate s3 b w = Returned w'" using Cons.prems(8) s3(7) by simp
    qed
    with s3 show ?thesis unfolding run by simp
  qed
qed

lemma steady_step:
  assumes "length (pending s) \<le> 1"
    and "length (delivered s) + length (pending s) = attempts s"
    and "attempts s \<le> max 1 (maxAttempts s)"
    and "interval s \<noteq> None \<and> pending s = [] \<longrightarrow> attempts s = 0 \<or> attempts s < maxAttempts s"
    and "interval s = None \<longrightarrow> pending s = [] \<and> attempts s = max 1 (maxAttempts s)"
    and "in_turn [e] s" and "e \<noteq> Stop" and "console (step e s) = console s"
    and "\<forall>x\<in>set (delivered (step e s)). \<not> is_analyzed (snd x)"
  shows "length (pending (step e s)) \<le> 1
    \<and> length (delivered (step e s)) + length (pending (step e s)) = attempts (step e s)
    \<and> attempts (step e s) \<le> max 1 (maxAttempts (step e s))
    \<and> (interval (step e s) \<noteq> None \<and> pending (step e s) = [] \<longrightarrow>
          attempts (step e s) = 0 \<or> attempts (step e s) < maxAttempts (step e s))
    \<and> (interval (step e s) = None \<longrightarrow>
          pending (step e s) = [] \<and> attempts (step e s) = max 1 (maxAttempts (step e s)))"
proof (cases e)
  case (Response k r)
  show ?thesis
  proof (cases "k \<in> set (pending s)")
    case True
    with assms(1) have p: "pending s = [k]" by (cases "pending s") auto
    with assms(5) have armed: "interval s \<noteq> None" by auto
    from assms(2) p have a: "attempts s = Suc (length (delivered s))" by simp
    have st: "step e s = tick_resume k r (s\<lparr>pending := []\<rparr>)"
      using Response True p by simp
    show ?thesis
    proof (cases r)
      case Rejected
      with st assms(8) show ?thesis by (simp add: poll_defs Let_def)
    next
      case (Resolved b)
      show ?thesis
      proof (cases "onUpdate s b (world s)")
        case (Threw w)
        with st Resolved assms(8) show ?thesis by (simp add: poll_defs Let_def)
      next
        case (Returned w)
        show ?thesis
        proof (cases b)
          case None
          with st Resolved Returned assms(8) show ?thesis by (simp add: poll_defs Let_def)
        next
          case (Some d)
          have "(k, b) \<in> set (delivered (step e s))"
            using st Resolved Returned Some by (simp add: poll_defs Let_def)
          with assms(9) Some have d: "status d \<noteq> ''analyzed''"
            by (auto simp: is_analyzed_def)
          show ?thesis
          proof (cases "maxAttempts s \<le> attempts s")
            case True
            with st Resolved Returned Some d assms(3) a show ?thesis
              by (simp add: poll_defs Let_def)
          next
            case False
            with st Resolved Returned Some d armed a show ?thesis
              by (simp add: poll_defs Let_def)
          qed
        qed
      qed
    qed
  next
    case False
    with Response assms show ?thesis by simp
  qed
next
  case Timer
  show ?thesis
  proof (cases "timer_due s")
    case True
    with assms(6) Timer have p: "pending s = []" by simp
    from True have armed: "interval s \<noteq> None" by (auto simp: timer_due_def split: option.splits)
    with assms(4) p have "attempts s = 0 \<or> attempts s < maxAttempts s" by simp
    with Timer True p assms(2) show ?thesis by (auto simp: tick_begin_def)
  next
    case False
    with Timer assms show ?thesis by simp
  qed
next
  case Stop
  with assms(7) show ?thesis by simp
qed (use assms in \<open>auto simp: poll_defs\<close>)

lemma steady_run:
  assumes "length (pending s) \<le> 1"
    and "length (delivered s) + length (pending s) = attempts s"
    and "attempts s \<le> max 1 (maxAttempts s)"
    and "interval s \<noteq> None \<and> pending s = [] \<longrightarrow> attempts s = 0 \<or> attempts s < maxAttempts s"
    and "interval s = None \<longrightarrow> pending s = [] \<and> attempts s = max 1 (maxAttempts s)"
    and "in_turn evs s" and "Stop \<notin> set evs" and "console (run evs s) = console s"
    and "\<forall>x\<in>set (delivered (run evs s)). \<not> is_analyzed (snd x)"
  shows "length (pending (run evs s)) \<le> 1
    \<and> length (delivered (run evs s)) + length (pending (run evs s)) = attempts (run evs s)
    \<and> attempts (run evs s) \<le> max 1 (maxAttempts s)
    \<and> (interval (run evs s) \<noteq> None \<and> pending (run evs s) = [] \<longrightarrow>
          attempts (run evs s) = 0 \<or> attempts (run evs s) < maxAttempts s)
    \<and> (interval (run evs s) = None \<longrightarrow>
          pending (run evs s) = [] \<and> attempts (run evs s) = max 1 (maxAttempts s))"
  using assms
proof (induction evs arbitrary: s)
  case Nil
  then show ?case by simp
next
  case (Cons e evs)
  from Cons.prems(6) have e: "in_turn [e] s" and es: "in_turn evs (step e s)"
    using in_turn_Cons by blast+
  from Cons.prems(7) have ne: "e \<noteq> Stop" and nes: "Stop \<notin> set evs" by auto
  from console_step [of e s] obtain ys where ys: "console (step e s) = console s @ ys" ..
  from console_run [of evs "step e s"] obtain zs
    where zs: "console (run evs (step e s)) = console (step e s) @ zs" ..
  from Cons.prems(8) ys zs have c: "console (step e s) = console s"
    and cs: "console (run evs (step e s)) = console (step e s)" by simp_all
  from delivered_set_run [of "step e s" evs] Cons.prems(9)
  have d: "\<forall>x\<in>set (delivered (step e s)). \<not> is_analyzed (snd x)"
    and ds: "\<forall>x\<in>set (delivered (run evs (step e s))). \<not> is_analyzed (snd x)" by auto
  note inv = steady_step [OF Cons.prems(1-5) e ne c d]
  have "length (pending (run evs (step e s))) \<le> 1
    \<and> length (delivered (run evs (step e s))) + length (pending (run evs (step e s)))
        = attempts (run evs (step e s))
    \<and> attempts (run evs (step e s)) \<le> max 1 (maxAttempts (step e s))
    \<and> (interval (run evs (step e s)) \<noteq> None \<and> pending (run evs (step e s)) = [] \<longrightarrow>
          attempts (run evs (step e s)) = 0
          \<or> attempts (run evs (step e s)) < maxAttempts (step e s))
    \<and> (interval (run evs (step e s)) = None \<longrightarrow>
          pending (run evs (step e s)) = []
          \<and> attempts (run evs (step e s)) = max 1 (maxAttempts (step e s)))"
    using inv es nes cs ds by (intro Cons.IH) simp_all
  then show ?case by (simp add: maxAttempts_step)
qed

subsection \<open>Starting a session\<close>

text \<open>
  Claim C10. \<^verbatim>\<open>pollDisasterAnalysis\<close> returns with no request issued and no call of
  \<^verbatim>\<open>onUpdate\<close>: in the session it returns, \<open>attempts\<close> is 0, nothing is pending, nothing has
  been delivered and the sink's state is untouched; the timer is armed for 3000 ms after
  the call. Whatever events follow, for as long as the clock reads less than 3000 ms
  after the call there is still no tick, no pending request and no delivery. The bound is
  reached: at 3000 ms the timer can fire the first tick.
\<close>

theorem start_is_silent:
  "attempts (pollDisasterAnalysis i f m now w) = 0
   \<and> pending (pollDisasterAnalysis i f m now w) = []
   \<and> delivered (pollDisasterAnalysis i f m now w) = []
   \<and> world (pollDisasterAnalysis i f m now w) = w
   \<and> interval (pollDisasterAnalysis i f m now w) = Some (now + 3000)
   \<and> (clock (run evs (pollDisasterAnalysis i f m now w)) < now + 3000 \<longrightarrow>
        attempts (run evs (pollDisasterAnalysis i f m now w)) = 0
        \<and> pending (run evs (pollDisasterAnalysis i f m now w)) = []
        \<and> delivered (run evs (pollDisasterAnalysis i f m now w)) = []
        \<and> world (run evs (pollDisasterAnalysis i f m now w)) = w)
   \<and> attempts (run [Elapse 3000, Timer] (pollDisasterAnalysis i f m now w)) = 1"
proof -
  let ?s = "pollDisasterAnalysis i f m now w"
  have init: "attempts ?s = 0" "pending ?s = []" "delivered ?s = []" "world ?s = w"
    "interval ?s = Some (now + 3000)"
    by (simp_all add: pollDisasterAnalysis_def)
  have later: "attempts (run evs ?s) = 0 \<and> pending (run evs ?s) = []
      \<and> delivered (run evs ?s) = [] \<and> world (run evs ?s) = w"
    if "clock (run evs ?s) < now + 3000"
    using init(1-4) _ that by (rule quiet_run) (simp add: init)
  have first: "attempts (run [Elapse 3000, Timer] ?s) = 1"
    by (simp add: pollDisasterAnalysis_def poll_defs)
  from init later first show ?thesis by blast
qed

theorem start_is_silent_witness:
  "clock (run [Elapse 2999, Timer, Response 1 Rejected]
       (pollDisasterAnalysis 7 (\<lambda>d (u::nat). Returned (Suc u)) None 0 0)) < 0 + 3000
   \<and> attempts (run [Elapse 2999, Timer, Response 1 Rejected]
       (pollDisasterAnalysis 7 (\<lambda>d (u::nat). Returned (Suc u)) None 0 0)) = 0
   \<and> delivered (run [Elapse 2999, Timer, Response 1 Rejected]
       (pollDisasterAnalysis 7 (\<lambda>d (u::nat). Returned (Suc u)) None 0 0)) = []"
proof -
  have early: "clock (run [Elapse 2999, Timer, Response 1 Rejected]
       (pollDisasterAnalysis 7 (\<lambda>d (u::nat). Returned (Suc u)) None 0 0)) < 0 + 3000"
    by (simp add: pollDisasterAnalysis_def poll_defs)
  with start_is_silent [of 7 "\<lambda>d (u::nat). Returned (Suc u)" None 0 0
      "[Elapse 2999, Timer, Response 1 Rejected]"]
  show ?thesis by blast
qed

subsection \<open>How many snapshots a session delivers\<close>

text \<open>
  Claim C1, as amended. Write \<open>n\<close> for \<open>max 1 maxAttempts\<close>, with \<open>maxAttempts\<close> 20 when the
  argument is omitted: the limit is tested after the delivery, so the first tick delivers
  even when \<open>maxAttempts\<close> is 0.
  \<^item> In every run, \<^verbatim>\<open>onUpdate\<close> is called at most once for each tick that fired.
  \<^item> In a run where no tick fires while a request is pending, \<^verbatim>\<open>onUpdate\<close> is called at
    most \<open>n\<close> times.
  \<^item> In such a run, if moreover the session is not stopped, nothing reaches the \<^verbatim>\<open>catch\<close>
    block (no request is rejected, no body is \<^verbatim>\<open>null\<close>, the sink does not throw) and no
    delivered snapshot is \<^verbatim>\<open>analyzed\<close>, whatever else the statuses are, then the timer is
    cleared exactly when \<open>n\<close> snapshots have been delivered, and nothing is pending then.
    This holds whatever time the responses take within their 3000 ms.
  \<^item> Such a session does end: with a sink that never throws, ticks on time and \<open>n\<close> or more
    such responses, \<open>n\<close> snapshots are delivered and the timer is cleared.
  The claim as stated fails in two ways. With \<open>maxAttempts = 2\<close> and responses slower than
  6000 ms, three ticks fire before the first response is handled and all three snapshots
  are delivered. With \<open>maxAttempts = 0\<close> the first tick still delivers one snapshot.
\<close>

theorem at_most_maxAttempts:
  fixes i :: nat and f :: "disaster option \<Rightarrow> 'u \<Rightarrow> 'u called" and m :: "nat option"
    and now :: nat and w :: 'u
  defines "s0 \<equiv> pollDisasterAnalysis i f m now w"
  defines "n \<equiv> max 1 (case m of None \<Rightarrow> 20 | Some a \<Rightarrow> a)"
  shows "length (delivered (run evs s0)) \<le> attempts (run evs s0)
    \<and> (in_turn evs s0 \<longrightarrow> length (delivered (run evs s0)) \<le> n)
    \<and> (in_turn evs s0 \<and> Stop \<notin> set evs \<and> console (run evs s0) = []
         \<and> (\<forall>x\<in>set (delivered (run evs s0)). \<not> is_analyzed (snd x)) \<longrightarrow>
          (interval (run evs s0) = None) = (length (delivered (run evs s0)) = n)
          \<and> (interval (run evs s0) = None \<longrightarrow> pending (run evs s0) = []))
    \<and> ((\<forall>b u. \<exists>u'. f b u = Returned u')
         \<and> (\<forall>r\<in>set rs. \<exists>d. r = Resolved (Some d) \<and> status d \<noteq> ''analyzed'')
         \<and> n \<le> length rs \<longrightarrow>
          length (delivered (run (on_time 0 rs) s0)) = n
          \<and> interval (run (on_time 0 rs) s0) = None \<and> pending (run (on_time 0 rs) s0) = [])"
proof -
  have init: "attempts s0 = 0" "pending s0 = []" "delivered s0 = []"
    "interval s0 = Some (now + 3000)" "clock s0 = now" "max 1 (maxAttempts s0) = n"
    "console s0 = []" "onUpdate s0 = f"
    by (simp_all add: s0_def n_def pollDisasterAnalysis_def)
  have once: "length (delivered (run evs s0)) \<le> attempts (run evs s0)"
    using ledger_run [of evs s0] init by simp
  have bound: "length (delivered (run evs s0)) \<le> n" if "in_turn evs s0"
  proof -
    have "attempts (run evs s0) \<le> max 1 (maxAttempts s0)"
      by (rule budget_run) (simp_all add: init that)
    with once init show ?thesis by simp
  qed
  have steady: "(interval (run evs s0) = None) = (length (delivered (run evs s0)) = n)
      \<and> (interval (run evs s0) = None \<longrightarrow> pending (run evs s0) = [])"
    if "in_turn evs s0" and "Stop \<notin> set evs" and "console (run evs s0) = []"
      and "\<forall>x\<in>set (delivered (run evs s0)). \<not> is_analyzed (snd x)"
  proof -
    let ?s = "run evs s0"
    have inv: "length (pending ?s) \<le> 1
      \<and> length (delivered ?s) + length (pending ?s) = attempts ?s
      \<and> attempts ?s \<le> max 1 (maxAttempts s0)
      \<and> (interval ?s \<noteq> None \<and> pending ?s = [] \<longrightarrow>
            attempts ?s = 0 \<or> attempts ?s < maxAttempts s0)
      \<and> (interval ?s = None \<longrightarrow> pending ?s = [] \<and> attempts ?s = max 1 (maxAttempts s0))"
    proof (rule steady_run)
      show "in_turn evs s0" by (rule that)
      show "Stop \<notin> set evs" by (rule that)
      show "console (run evs s0) = console s0" using that(3) init(7) by simp
      show "\<forall>x\<in>set (delivered (run evs s0)). \<not> is_analyzed (snd x)" by (rule that)
    qed (simp_all add: init(1-4))
    show ?thesis
    proof (cases "interval ?s = None")
      case True
      with inv have "pending ?s = []" and "attempts ?s = max 1 (maxAttempts s0)"
        and "length (delivered ?s) + length (pending ?s) = attempts ?s" by blast+
      then have "length (delivered ?s) = n" using init(6) by simp
      with True \<open>pending ?s = []\<close> show ?thesis by simp
    next
      case False
      have "length (delivered ?s) < n"
      proof (cases "pending ?s = []")
        case True
        with inv False have "attempts ?s = 0 \<or> attempts ?s < maxAttempts s0"
          and "length (delivered ?s) = attempts ?s" by simp_all
        then show ?thesis unfolding init(6) [symmetric] by auto
      next
        case nonempty: False
        with inv have "length (pending ?s) = 1" by (cases "pending ?s") auto
        with inv have "Suc (length (delivered ?s)) \<le> max 1 (maxAttempts s0)" by simp
        then show ?thesis unfolding init(6) by simp
      qed
      with False show ?thesis by auto
    qed
  qed
  have exact: "length (delivered (run (on_time 0 rs) s0)) = n
      \<and> interval (run (on_time 0 rs) s0) = None \<and> pending (run (on_time 0 rs) s0) = []"
    if "\<forall>b u. \<exists>u'. f b u = Returned u'"
      and "\<forall>r\<in>set rs. \<exists>d. r = Resolved (Some d) \<and> status d \<noteq> ''analyzed''"
      and "n \<le> length rs"
  proof -
    have "length (delivered (run (on_time 0 rs) s0)) + 0 = length (delivered s0) + max 1 (maxAttempts s0)
      \<and> interval (run (on_time 0 rs) s0) = None \<and> pending (run (on_time 0 rs) s0) = []
      \<and> attempts (run (on_time 0 rs) s0) = max 1 (maxAttempts s0)"
    proof (rule on_time_run [where t = "now + 3000"])
      show "max 1 (maxAttempts s0) \<le> 0 + length rs" unfolding init(6) using that(3) by simp
      show "\<forall>b w. \<exists>w'. onUpdate s0 b w = Returned w'" unfolding init(8) by (rule that)
    qed (simp_all add: init(1-5) that(2))
    then show ?thesis unfolding init(6) by (simp add: init(3))
  qed
  from once bound steady exact show ?thesis by blast
qed

theorem at_most_maxAttempts_witness:
  "in_turn [Elapse 3000, Timer, Elapse 1500, Response 1 (Resolved (Some (report_with ''reported''))),
       Elapse 1500, Timer, Elapse 2000, Response 2 (Resolved (Some (report_with ''analyzing'')))]
      (pollDisasterAnalysis 7 count_calls (Some 2) 0 0)
   \<and> Stop \<notin> set [Elapse 3000, Timer, Elapse 1500,
       Response 1 (Resolved (Some (report_with ''reported''))),
       Elapse 1500, Timer, Elapse 2000, Response 2 (Resolved (Some (report_with ''analyzing'')))]
   \<and> console (run [Elapse 3000, Timer, Elapse 1500,
       Response 1 (Resolved (Some (report_with ''reported''))),
       Elapse 1500, Timer, Elapse 2000, Response 2 (Resolved (Some (report_with ''analyzing'')))]
      (pollDisasterAnalysis 7 count_calls (Some 2) 0 0)) = []
   \<and> \<not> is_analyzed (Some (report_with ''reported''))
   \<and> \<not> is_analyzed (Some (report_with ''analyzing''))
   \<and> interval (run [Elapse 3000, Timer, Elapse 1500,
       Response 1 (Resolved (Some (report_with ''reported''))),
       Elapse 1500, Timer, Elapse 2000, Response 2 (Resolved (Some (report_with ''analyzing'')))]
      (pollDisasterAnalysis 7 count_calls (Some 2) 0 0)) = None
   \<and> length (delivered (run [Elapse 3000, Timer, Elapse 1500,
       Response 1 (Resolved (Some (report_with ''reported''))),
       Elapse 1500, Timer, Elapse 2000, Response 2 (Resolved (Some (report_with ''analyzing'')))]
      (pollDisasterAnalysis 7 count_calls (Some 2) 0 0))) = 2
   \<and> length (delivered (run (on_time 0 [Resolved (Some (report_with ''reported'')),
         Resolved (Some (report_with ''analyzing''))])
      (pollDisasterAnalysis 7 count_calls (Some 2) 0 0))) = 2"
proof -
  let ?evs = "[Elapse 3000, Timer, Elapse 1500,
       Response 1 (Resolved (Some (report_with ''reported''))),
       Elapse 1500, Timer, Elapse 2000, Response 2 (Resolved (Some (report_with ''analyzing'')))]"
  let ?rs = "[Resolved (Some (report_with ''reported'')), Resolved (Some (report_with ''analyzing''))]"
  let ?s0 = "pollDisasterAnalysis 7 count_calls (Some 2) 0 (0::nat)"
  have turn: "in_turn ?evs ?s0" and nostop: "Stop \<notin> set ?evs"
    and quiet: "console (run ?evs ?s0) = []" and ended: "interval (run ?evs ?s0) = None"
    and log: "delivered (run ?evs ?s0)
      = [(1, Some (report_with ''reported'')), (2, Some (report_with ''analyzing''))]"
    by (simp_all add: run_defs)
  have st: "\<not> is_analyzed (Some (report_with ''reported''))"
    "\<not> is_analyzed (Some (report_with ''analyzing''))"
    by (simp_all add: is_analyzed_def report_with_def)
  from log st have clean: "\<forall>x\<in>set (delivered (run ?evs ?s0)). \<not> is_analyzed (snd x)"
    by simp
  have total: "\<forall>b u. \<exists>u'. count_calls b u = Returned u'" by (simp add: count_calls_def)
  have ok: "\<forall>r\<in>set ?rs. \<exists>d. r = Resolved (Some d) \<and> status d \<noteq> ''analyzed''"
    by (simp add: report_with_def)
  have n: "max 1 (case Some 2 of None \<Rightarrow> 20 | Some a \<Rightarrow> a) = (2::nat)" by simp
  note inst = at_most_maxAttempts [of ?evs 7 count_calls "Some 2" 0 0 ?rs, unfolded n]
  have "(interval (run ?evs ?s0) = None) = (length (delivered (run ?evs ?s0)) = 2)"
    using inst [THEN conjunct2, THEN conjunct2, THEN conjunct1] turn nostop quiet clean
    by blast
  moreover have "length (delivered (run (on_time 0 ?rs) ?s0)) = 2"
    using inst [THEN conjunct2, THEN conjunct2, THEN conjunct2] total ok by simp
  ultimately show ?thesis using turn nostop quiet st ended by blast
qed

theorem at_most_maxAttempts_counterexample:
  "length (delivered (run [Elapse 3000, Timer, Elapse 3000, Timer, Elapse 3000, Timer,
       Response 1 (Resolved (Some (report_with ''analyzing''))),
       Response 2 (Resolved (Some (report_with ''analyzing''))),
       Response 3 (Resolved (Some (report_with ''analyzing'')))]
     (pollDisasterAnalysis 7 count_calls (Some 2) 0 0))) = 3
   \<and> world (run [Elapse 3000, Timer, Elapse 3000, Timer, Elapse 3000, Timer,
       Response 1 (Resolved (Some (report_with ''analyzing''))),
       Response 2 (Resolved (Some (report_with ''analyzing''))),
       Response 3 (Resolved (Some (report_with ''analyzing'')))]
     (pollDisasterAnalysis 7 count_calls (Some 2) 0 0)) = 3
   \<and> world (run [Elapse 3000, Timer, Response 1 (Resolved (Some (report_with ''analyzing'')))]
     (pollDisasterAnalysis 7 count_calls (Some 0) 0 0)) = 1"
  by (simp add: run_defs)

subsection \<open>The terminal snapshot\<close>

text \<open>
  Claim C2, as amended. When the response of a pending request carries status
  \<^verbatim>\<open>analyzed\<close>, that snapshot is passed to \<^verbatim>\<open>onUpdate\<close> first and the timer is cleared
  next; from then on, whatever events follow, the timer stays cleared and no tick fires
  again (\<open>attempts\<close> keeps its value). So when tick \<open>K\<close> is the latest tick at that
  moment, there is never a tick \<open>K + 1\<close>.
  The claim as stated fails for a tick that fired while the request was pending: in the
  run below tick 2 fires before the \<^verbatim>\<open>analyzed\<close> snapshot of tick 1 arrives, and the
  snapshot of tick 2 is delivered after it.
\<close>

theorem analyzed_stops_ticks:
  fixes s :: "'u session"
  assumes "k \<in> set (pending s)" and "status d = ''analyzed''"
  shows "delivered (step (Response k (Resolved (Some d))) s) = delivered s @ [(k, Some d)]
    \<and> world (step (Response k (Resolved (Some d))) s) = left (onUpdate s (Some d) (world s))
    \<and> interval (step (Response k (Resolved (Some d))) s) = None
    \<and> interval (run evs (step (Response k (Resolved (Some d))) s)) = None
    \<and> attempts (run evs (step (Response k (Resolved (Some d))) s)) = attempts s"
proof -
  let ?s = "step (Response k (Resolved (Some d))) s"
  from assms have now: "delivered ?s = delivered s @ [(k, Some d)]"
    "world ?s = left (onUpdate s (Some d) (world s))" "interval ?s = None"
    "attempts ?s = attempts s"
    by (simp_all add: poll_defs Let_def split: called.splits)
  from cleared_run [OF now(3), of evs] now show ?thesis by simp
qed

theorem analyzed_stops_ticks_witness:
  "1 \<in> set (pending (run [Elapse 3000, Timer] (pollDisasterAnalysis 7 count_calls None 0 0)))
   \<and> status (report_with ''analyzed'') = ''analyzed''
   \<and> attempts (run [Elapse 3000, Timer, Elapse 9000, Timer]
        (step (Response 1 (Resolved (Some (report_with ''analyzed''))))
          (run [Elapse 3000, Timer] (pollDisasterAnalysis 7 count_calls None 0 0)))) = 1"
proof -
  let ?s = "run [Elapse 3000, Timer] (pollDisasterAnalysis 7 count_calls None 0 0)"
  have p: "1 \<in> set (pending ?s)" and a: "attempts ?s = 1" by (simp_all add: run_defs)
  have st: "status (report_with ''analyzed'') = ''analyzed''" by (simp add: report_with_def)
  have "attempts (run [Elapse 3000, Timer, Elapse 9000, Timer]
      (step (Response 1 (Resolved (Some (report_with ''analyzed'')))) ?s)) = attempts ?s"
    using analyzed_stops_ticks [OF p st, of "[Elapse 3000, Timer, Elapse 9000, Timer]"]
    by blast
  with p st a show ?thesis by metis
qed

theorem analyzed_stops_ticks_counterexample:
  "delivered (run [Elapse 3000, Timer, Elapse 3000, Timer,
       Response 1 (Resolved (Some (report_with ''analyzed'')))]
     (pollDisasterAnalysis 7 count_calls None 0 0)) = [(1, Some (report_with ''analyzed''))]
   \<and> attempts (run [Elapse 3000, Timer, Elapse 3000, Timer,
       Response 1 (Resolved (Some (report_with ''analyzed'')))]
     (pollDisasterAnalysis 7 count_calls None 0 0)) = 2
   \<and> delivered (run [Elapse 3000, Timer, Elapse 3000, Timer,
       Response 1 (Resolved (Some (report_with ''analyzed''))),
       Response 2 (Resolved (Some (report_with ''analyzing'')))]
     (pollDisasterAnalysis 7 count_calls None 0 0))
     = [(1, Some (report_with ''analyzed'')), (2, Some (report_with ''analyzing''))]"
  by (simp add: run_defs)

subsection \<open>A failed request\<close>

text \<open>
  Claim C3, as amended. In a session started by \<^verbatim>\<open>pollDisasterAnalysis\<close>, when the pending
  request of tick \<open>k\<close> is rejected: \<^verbatim>\<open>onUpdate\<close> is not called and the sink's state is left as
  it is, the failure goes to the console only, no request is issued in its place, and the
  timer is cleared. From then on, whatever events follow, the timer stays cleared, no
  tick fires again, and no snapshot of tick \<open>k\<close> is ever delivered.
  The claim as stated fails for a tick that fired while the failing request was pending:
  in the run below tick 2 has fired when the request of tick 1 is rejected, and its
  snapshot is delivered after the failure.
\<close>

theorem failure_halts:
  fixes i :: nat and f :: "disaster option \<Rightarrow> 'u \<Rightarrow> 'u called" and m :: "nat option"
    and now :: nat and w :: 'u and pre :: "event list"
  defines "s \<equiv> run pre (pollDisasterAnalysis i f m now w)"
  assumes "k \<in> set (pending s)"
  shows "delivered (step (Response k Rejected) s) = delivered s
    \<and> world (step (Response k Rejected) s) = world s
    \<and> console (step (Response k Rejected) s) = console s @ [''Polling error:'']
    \<and> pending (step (Response k Rejected) s) = remove1 k (pending s)
    \<and> interval (run evs (step (Response k Rejected) s)) = None
    \<and> attempts (run evs (step (Response k Rejected) s)) = attempts s
    \<and> k \<notin> fst ` set (delivered (run evs (step (Response k Rejected) s)))"
proof -
  define s' where "s' = step (Response k Rejected) s"
  from assms(2) have now: "delivered s' = delivered s" "world s' = world s"
    "console s' = console s @ [''Polling error:'']" "pending s' = remove1 k (pending s)"
    "interval s' = None" "attempts s' = attempts s"
    by (simp_all add: s'_def poll_defs)
  have inv: "distinct (ticks_of s) \<and> (\<forall>j\<in>set (ticks_of s). j \<le> attempts s)"
    unfolding s_def by (rule named_run) (rule named_start)+
  from inv assms(2) have "k \<le> attempts s" by (simp add: ticks_of_def)
  then have "k \<le> attempts s'" by (simp only: now)
  moreover from inv assms(2) have "k \<notin> set (ticks_of s')"
    by (auto simp: now ticks_of_def)
  ultimately have "k \<notin> set (ticks_of (run evs s'))" by (rule gone_run)
  then have "k \<notin> fst ` set (delivered (run evs s'))" by (simp add: ticks_of_def)
  with cleared_run [OF now(5), of evs] now show ?thesis unfolding s'_def by simp
qed

theorem failure_halts_witness:
  "1 \<in> set (pending (run [Elapse 3000, Timer] (pollDisasterAnalysis 9 count_calls None 0 0)))
   \<and> world (step (Response 1 Rejected)
        (run [Elapse 3000, Timer] (pollDisasterAnalysis 9 count_calls None 0 0))) = 0
   \<and> attempts (run [Elapse 3000, Timer, Response 1 (Resolved (Some (report_with ''analyzed'')))]
        (step (Response 1 Rejected)
          (run [Elapse 3000, Timer] (pollDisasterAnalysis 9 count_calls None 0 0)))) = 1"
proof -
  let ?s = "run [Elapse 3000, Timer] (pollDisasterAnalysis 9 count_calls None 0 0)"
  have p: "1 \<in> set (pending ?s)" and a: "attempts ?s = 1" and w: "world ?s = 0"
    by (simp_all add: run_defs)
  have "world (step (Response 1 Rejected) ?s) = world ?s
    \<and> attempts (run [Elapse 3000, Timer, Response 1 (Resolved (Some (report_with ''analyzed'')))]
        (step (Response 1 Rejected) ?s)) = attempts ?s"
    using failure_halts [OF p,
        of "[Elapse 3000, Timer, Response 1 (Resolved (Some (report_with ''analyzed'')))]"]
    by blast
  with p a w show ?thesis by metis
qed

theorem failure_halts_counterexample:
  "attempts (run [Elapse 3000, Timer, Elapse 3000, Timer, Response 1 Rejected,
       Response 2 (Resolved (Some (report_with ''analyzing'')))]
     (pollDisasterAnalysis 9 count_calls None 0 0)) = 2
   \<and> delivered (run [Elapse 3000, Timer, Elapse 3000, Timer, Response 1 Rejected,
       Response 2 (Resolved (Some (report_with ''analyzing'')))]
     (pollDisasterAnalysis 9 count_calls None 0 0)) = [(2, Some (report_with ''analyzing''))]
   \<and> console (run [Elapse 3000, Timer, Elapse 3000, Timer, Response 1 Rejected]
     (pollDisasterAnalysis 9 count_calls None 0 0)) = [''Polling error:'']"
  by (simp add: run_defs)

subsection \<open>Order of deliveries\<close>

text \<open>
  Claim C4, as amended. The timer fires on its 3000 ms cadence for as long as it is armed,
  whether or not a request is pending: while no response arrives, \<open>j\<close> ticks leave \<open>j\<close>
  requests pending at once, for every \<open>j\<close>. Each event the loop handles calls \<^verbatim>\<open>onUpdate\<close> at
  most once. In every run the snapshot of a tick is delivered at most once, and only for
  a tick that has fired. In a run where no tick fires while a request is pending, at most
  one request is pending at a time and snapshots are delivered in tick order.
  The claim as stated fails: in the run below tick 2 fires, and issues its request, while
  the request of tick 1 is pending, and the snapshot of tick 2 is delivered before that
  of tick 1.
\<close>

theorem deliveries_follow_responses:
  fixes i :: nat and f :: "disaster option \<Rightarrow> 'u \<Rightarrow> 'u called" and m :: "nat option"
    and now :: nat and w :: 'u and evs :: "event list"
  defines "s0 \<equiv> pollDisasterAnalysis i f m now w"
  defines "s \<equiv> run evs s0"
  shows "distinct (map fst (delivered s))
    \<and> (\<forall>k\<in>set (map fst (delivered s)). k \<le> attempts s)
    \<and> length (delivered (step e s)) \<le> Suc (length (delivered s))
    \<and> pending (run (unanswered j) s0) = [1..<Suc j]
    \<and> attempts (run (unanswered j) s0) = j
    \<and> (in_turn evs s0 \<longrightarrow> sorted_wrt (<) (map fst (delivered s)) \<and> length (pending s) \<le> 1)"
proof -
  have "distinct (ticks_of s) \<and> (\<forall>k\<in>set (ticks_of s). k \<le> attempts s)"
    unfolding s_def s0_def by (rule named_run) (rule named_start)+
  then have any: "distinct (map fst (delivered s))"
    "\<forall>k\<in>set (map fst (delivered s)). k \<le> attempts s"
    by (simp_all add: ticks_of_def)
  have one: "length (delivered (step e s)) \<le> Suc (length (delivered s))"
    by (rule one_call_step)
  have "pending (run (unanswered j) s0) = pending s0 @ [Suc (attempts s0)..<Suc (attempts s0 + j)]
    \<and> attempts (run (unanswered j) s0) = attempts s0 + j"
    by (rule unanswered_run [where t = "now + 3000"])
      (simp_all add: s0_def pollDisasterAnalysis_def)
  then have many: "pending (run (unanswered j) s0) = [1..<Suc j]"
    "attempts (run (unanswered j) s0) = j"
    by (simp_all add: s0_def pollDisasterAnalysis_def)
  have turn: "sorted_wrt (<) (map fst (delivered s)) \<and> length (pending s) \<le> 1"
    if "in_turn evs s0"
  proof -
    have "sorted_wrt (<) (ticks_of (run evs s0)) \<and> length (pending (run evs s0)) \<le> 1"
    proof (rule turn_run)
      show "in_turn evs s0" by (rule that)
    qed (simp_all add: s0_def ticks_of_def pollDisasterAnalysis_def)
    then show ?thesis by (simp add: s_def ticks_of_def sorted_wrt_append)
  qed
  from any one many turn show ?thesis by blast
qed

theorem deliveries_follow_responses_witness:
  "in_turn [Elapse 3000, Timer, Elapse 1000, Response 1 (Resolved (Some (report_with ''reported''))),
       Elapse 2000, Timer, Response 2 (Resolved (Some (report_with ''analyzing'')))]
      (pollDisasterAnalysis 7 count_calls None 0 0)
   \<and> map fst (delivered (run [Elapse 3000, Timer, Elapse 1000,
       Response 1 (Resolved (Some (report_with ''reported''))),
       Elapse 2000, Timer, Response 2 (Resolved (Some (report_with ''analyzing'')))]
      (pollDisasterAnalysis 7 count_calls None 0 0))) = [1, 2]
   \<and> sorted_wrt (<) (map fst (delivered (run [Elapse 3000, Timer, Elapse 1000,
       Response 1 (Resolved (Some (report_with ''reported''))),
       Elapse 2000, Timer, Response 2 (Resolved (Some (report_with ''analyzing'')))]
      (pollDisasterAnalysis 7 count_calls None 0 0))))
   \<and> pending (run (unanswered 3) (pollDisasterAnalysis 7 count_calls None 0 0)) = [1, 2, 3]"
proof -
  let ?evs = "[Elapse 3000, Timer, Elapse 1000,
       Response 1 (Resolved (Some (report_with ''reported''))),
       Elapse 2000, Timer, Response 2 (Resolved (Some (report_with ''analyzing'')))]"
  let ?s0 = "pollDisasterAnalysis 7 count_calls None 0 (0::nat)"
  have turn: "in_turn ?evs ?s0"
    and log: "map fst (delivered (run ?evs ?s0)) = [1, 2]"
    by (simp_all add: run_defs)
  note inst = deliveries_follow_responses [of ?evs 7 count_calls None 0 0 _ 3]
  have "sorted_wrt (<) (map fst (delivered (run ?evs ?s0)))"
    using inst turn by blast
  moreover have "pending (run (unanswered 3) ?s0) = [1..<Suc 3]"
    using inst by blast
  moreover have "[1..<Suc 3] = [1, 2, 3::nat]" by (simp add: upt_rec)
  ultimately show ?thesis using turn log by simp
qed

theorem deliveries_follow_responses_counterexample:
  "pending (run [Elapse 3000, Timer, Elapse 3000, Timer]
       (pollDisasterAnalysis 7 count_calls None 0 0)) = [1, 2]
   \<and> delivered (run [Elapse 3000, Timer, Elapse 3000, Timer,
       Response 2 (Resolved (Some (report_with ''analyzing''))),
       Response 1 (Resolved (Some (report_with ''reported'')))]
     (pollDisasterAnalysis 7 count_calls None 0 0))
     = [(2, Some (report_with ''analyzing'')), (1, Some (report_with ''reported''))]"
  by (simp add: run_defs)

subsection \<open>Stopping a session\<close>

text \<open>
  Claim C5, as amended. After \<^verbatim>\<open>clearInterval\<close> on the handle, whatever events follow, the
  timer stays cleared and no tick fires again. A request pending at that moment is not
  aborted: when it succeeds its snapshot is still passed to \<^verbatim>\<open>onUpdate\<close>, so up to as many
  further deliveries follow as requests were pending.
  The claim as stated fails in its second half: in the run below nothing has been
  delivered when the session is stopped, and the snapshot of tick 1 is delivered
  afterwards.
\<close>

theorem stop_halts_ticks:
  fixes s :: "'u session"
  shows "interval (run evs (step Stop s)) = None
    \<and> attempts (run evs (step Stop s)) = attempts s
    \<and> length (delivered (run evs (step Stop s))) \<le> length (delivered s) + length (pending s)
    \<and> (k \<in> set (pending s) \<longrightarrow>
         delivered (step (Response k (Resolved b)) (step Stop s)) = delivered s @ [(k, b)]
         \<and> world (step (Response k (Resolved b)) (step Stop s)) = left (onUpdate s b (world s)))"
proof -
  have st: "interval (step Stop s) = None" "attempts (step Stop s) = attempts s"
    "delivered (step Stop s) = delivered s" "pending (step Stop s) = pending s"
    by (simp_all add: poll_defs)
  have "length (delivered (run evs (step Stop s))) + length (pending (run evs (step Stop s)))
      \<le> length (delivered (step Stop s)) + length (pending (step Stop s))"
    using st(1) by (rule cleared_quota)
  then have quota: "length (delivered (run evs (step Stop s))) \<le> length (delivered s) + length (pending s)"
    by (simp only: st)
  have late: "delivered (step (Response k (Resolved b)) (step Stop s)) = delivered s @ [(k, b)]
      \<and> world (step (Response k (Resolved b)) (step Stop s)) = left (onUpdate s b (world s))"
    if "k \<in> set (pending s)"
    using that by (simp add: poll_defs Let_def split: called.splits option.splits)
  from cleared_run [OF st(1), of evs] st(2) quota late show ?thesis by simp
qed

theorem stop_halts_ticks_witness:
  "1 \<in> set (pending (run [Elapse 3000, Timer] (pollDisasterAnalysis 7 count_calls None 0 0)))
   \<and> attempts (run [Elapse 3000, Timer, Elapse 3000, Timer]
        (step Stop (run [Elapse 3000, Timer] (pollDisasterAnalysis 7 count_calls None 0 0)))) = 1
   \<and> delivered (step (Response 1 (Resolved (Some (report_with ''analyzing''))))
        (step Stop (run [Elapse 3000, Timer] (pollDisasterAnalysis 7 count_calls None 0 0))))
      = [(1, Some (report_with ''analyzing''))]"
proof -
  let ?s = "run [Elapse 3000, Timer] (pollDisasterAnalysis 7 count_calls None 0 0)"
  have p: "1 \<in> set (pending ?s)" and a: "attempts ?s = 1" and d: "delivered ?s = []"
    by (simp_all add: run_defs)
  have "attempts (run [Elapse 3000, Timer, Elapse 3000, Timer] (step Stop ?s)) = attempts ?s"
    and "delivered (step (Response 1 (Resolved (Some (report_with ''analyzing'')))) (step Stop ?s))
      = delivered ?s @ [(1, Some (report_with ''analyzing''))]"
    using stop_halts_ticks [of "[Elapse 3000, Timer, Elapse 3000, Timer]" ?s 1
        "Some (report_with ''analyzing'')"] p
    by blast+
  with p a d show ?thesis by (metis append_Nil)
qed

theorem stop_halts_ticks_counterexample:
  "delivered (run [Elapse 3000, Timer, Stop] (pollDisasterAnalysis 7 count_calls None 0 0)) = []
   \<and> delivered (run [Elapse 3000, Timer, Stop, Response 1 (Resolved (Some (report_with ''analyzing'')))]
       (pollDisasterAnalysis 7 count_calls None 0 0)) = [(1, Some (report_with ''analyzing''))]
   \<and> world (run [Elapse 3000, Timer, Stop, Response 1 (Resolved (Some (report_with ''analyzing'')))]
       (pollDisasterAnalysis 7 count_calls None 0 0)) = 1"
  by (simp add: run_defs)

section \<open>Properties of the submit handler\<close>

lemmas submit_defs = handleSubmit_def reportDisaster_def resetDraft_def or_else_def
  pollDisasterAnalysis_def

lemma sent_handleSubmit:
  assumes "location (form a) \<noteq> []"
  shows "sent (ui (handleSubmit resp now a)) =
    sent a @ [Post_disasters [(''disaster_type'', or_else (predicted (form a)) ''fire''),
      (''address'', location (form a)), (''description'', description (form a))]]"
  using assms by (cases resp) (simp_all add: submit_defs Let_def)

lemma analyzing_sink: "analyzing (left (sink b a)) = (analyzing a \<and> \<not> is_analyzed b)"
  by (simp add: sink_def fetchActiveDisasters_def is_analyzed_def Let_def split: option.splits)

lemma flag_step:
  assumes "onUpdate s = sink"
    and "analyzing (world s) = (\<forall>x\<in>set (delivered s). \<not> is_analyzed (snd x))"
  shows "onUpdate (step e s) = sink \<and>
    analyzing (world (step e s)) = (\<forall>x\<in>set (delivered (step e s)). \<not> is_analyzed (snd x))"
proof (cases e)
  case (Response k r)
  show ?thesis
  proof (cases "k \<in> set (pending s)")
    case True
    show ?thesis
    proof (cases r)
      case Rejected
      with Response True assms show ?thesis by (simp add: poll_defs)
    next
      case (Resolved b)
      have "analyzing (left (sink b (world s))) = (analyzing (world s) \<and> \<not> is_analyzed b)"
        by (rule analyzing_sink)
      with Response True Resolved assms show ?thesis
        by (cases "sink b (world s)"; cases b)
          (auto simp: poll_defs Let_def is_analyzed_def)
    qed
  next
    case False
    with Response assms show ?thesis by simp
  qed
qed (use assms in \<open>auto simp: poll_defs\<close>)

lemma flag_run:
  assumes "onUpdate s = sink"
    and "analyzing (world s) = (\<forall>x\<in>set (delivered s). \<not> is_analyzed (snd x))"
  shows "analyzing (world (run evs s)) =
    (\<forall>x\<in>set (delivered (run evs s)). \<not> is_analyzed (snd x))"
  using assms
proof (induction evs arbitrary: s)
  case Nil
  then show ?case by simp
next
  case (Cons e evs)
  from flag_step [OF Cons.prems, of e] Cons.IH [of "step e s"] show ?case by simp
qed

text \<open>
  Claim C6, as amended. \<^verbatim>\<open>handleSubmit\<close> rejects the draft exactly when its location is the
  empty string: it then sets the message \<^verbatim>\<open>Please enter a location.\<close>, returns at once and
  issues no request, however the server would have answered. For any other location it
  issues one request.
  The claim as stated fails for a location of blanks only: \<^verbatim>\<open>!draft.location\<close> is false for
  a string of three spaces, and the create request is sent with that address.
\<close>

theorem missing_location_rejected:
  "(location (form a) = [] \<longrightarrow>
      handleSubmit resp now a = Invalid (a\<lparr>submitError := ''Please enter a location.''\<rparr>)
      \<and> sent (ui (handleSubmit resp now a)) = sent a)
   \<and> (location (form a) \<noteq> [] \<longrightarrow>
      length (sent (ui (handleSubmit resp now a))) = length (sent a) + 1)"
proof (cases "location (form a) = []")
  case True
  then show ?thesis by (simp add: handleSubmit_def)
next
  case False
  then show ?thesis by (simp add: sent_handleSubmit)
qed

theorem missing_location_rejected_witness:
  "location (form (new_incident [] [])) = []
   \<and> handleSubmit (Some 42) 0 (new_incident [] [])
        = Invalid ((new_incident [] [])\<lparr>submitError := ''Please enter a location.''\<rparr>)
   \<and> sent (ui (handleSubmit (Some 42) 0 (new_incident [] []))) = []
   \<and> location (form (new_incident ''123 Main St'' [])) \<noteq> []
   \<and> length (sent (ui (handleSubmit (Some 42) 0 (new_incident ''123 Main St'' [])))) = 1"
proof -
  have none: "location (form (new_incident [] [])) = []"
    and some: "location (form (new_incident ''123 Main St'' [])) \<noteq> []"
    and sent: "sent (new_incident [] []) = []" "sent (new_incident ''123 Main St'' []) = []"
    by (simp_all add: new_incident_def)
  from missing_location_rejected [of "new_incident [] []" "Some 42" 0]
    missing_location_rejected [of "new_incident ''123 Main St'' []" "Some 42" 0]
    none some sent
  show ?thesis by simp
qed

theorem missing_location_rejected_counterexample:
  "sent (ui (handleSubmit (Some 42) 0 (new_incident ''   '' [])))
     = [Post_disasters [(''disaster_type'', ''fire''), (''address'', ''   ''),
          (''description'', ''smoke on the second floor'')]]
   \<and> view (ui (handleSubmit (Some 42) 0 (new_incident ''   '' []))) = ''analysis''"
  by (simp add: submit_defs new_incident_def Let_def)

text \<open>
  Claim C7. For a draft with a non-empty location, the create request \<^verbatim>\<open>handleSubmit\<close>
  sends has \<^verbatim>\<open>disaster_type\<close> equal to \<^verbatim>\<open>fire\<close> when the predicted type is the empty string,
  and equal to the predicted type otherwise, whether the post then succeeds or fails.
\<close>

theorem default_disaster_type:
  assumes "location (form a) \<noteq> []"
  shows "\<exists>body. sent (ui (handleSubmit resp now a)) = sent a @ [Post_disasters body]
    \<and> map_of body ''disaster_type'' =
        Some (if predicted (form a) = [] then ''fire'' else predicted (form a))"
  using sent_handleSubmit [OF assms, of resp now] by (simp add: or_else_def)

theorem default_disaster_type_witness:
  "location (form (new_incident ''123 Main St'' [])) \<noteq> []
   \<and> (\<exists>body. sent (ui (handleSubmit (Some 42) 0 (new_incident ''123 Main St'' [])))
          = [Post_disasters body]
        \<and> map_of body ''disaster_type'' = Some ''fire'')
   \<and> (\<exists>body. sent (ui (handleSubmit (Some 42) 0 (new_incident ''123 Main St'' ''flood'')))
          = [Post_disasters body]
        \<and> map_of body ''disaster_type'' = Some ''flood'')"
proof -
  have loc: "location (form (new_incident ''123 Main St'' [])) \<noteq> []"
    "location (form (new_incident ''123 Main St'' ''flood'')) \<noteq> []"
    by (simp_all add: new_incident_def)
  from default_disaster_type [OF loc(1), of "Some 42" 0]
    default_disaster_type [OF loc(2), of "Some 42" 0] loc(1)
  show ?thesis by (simp add: new_incident_def)
qed

text \<open>
  Claim C8. For a draft with a non-empty location, \<^verbatim>\<open>handleSubmit\<close> adds one request, a post
  whose body has exactly the fields \<^verbatim>\<open>disaster_type\<close>, \<^verbatim>\<open>address\<close> and \<^verbatim>\<open>description\<close>, the last
  two taken from the draft's location and description. The body has no field
  \<^verbatim>\<open>confidence\<close> or \<^verbatim>\<open>keywords\<close>, and it stays the same when those two fields of the draft
  are replaced by any other values.
\<close>

theorem create_request_fields:
  assumes "location (form a) \<noteq> []"
  shows "\<exists>body. sent (ui (handleSubmit resp now a)) = sent a @ [Post_disasters body]
    \<and> map fst body = [''disaster_type'', ''address'', ''description'']
    \<and> map_of body ''address'' = Some (location (form a))
    \<and> map_of body ''description'' = Some (description (form a))
    \<and> map_of body ''confidence'' = None \<and> map_of body ''keywords'' = None
    \<and> sent (ui (handleSubmit resp now
          (a\<lparr>form := (form a)\<lparr>confidence := c, keywords_found := k\<rparr>\<rparr>))) =
        sent a @ [Post_disasters body]"
proof -
  let ?a = "a\<lparr>form := (form a)\<lparr>confidence := c, keywords_found := k\<rparr>\<rparr>"
  have "location (form ?a) \<noteq> []" using assms by simp
  from sent_handleSubmit [OF this, of resp now] sent_handleSubmit [OF assms, of resp now]
  show ?thesis by simp
qed

theorem create_request_fields_witness:
  "location (form (new_incident ''123 Main St'' [])) \<noteq> []
   \<and> (\<exists>body. sent (ui (handleSubmit None 0 (new_incident ''123 Main St'' [])))
          = [Post_disasters body]
        \<and> map fst body = [''disaster_type'', ''address'', ''description''])"
proof -
  have loc: "location (form (new_incident ''123 Main St'' [])) \<noteq> []"
    by (simp add: new_incident_def)
  from create_request_fields [OF loc, where resp = None and now = 0 and c = "[]" and k = "[]"]
  obtain body where
    "sent (ui (handleSubmit None 0 (new_incident ''123 Main St'' [])))
       = sent (new_incident ''123 Main St'' []) @ [Post_disasters body]"
    and "map fst body = [''disaster_type'', ''address'', ''description'']"
    by (elim exE conjE)
  moreover have "sent (new_incident ''123 Main St'' []) = []"
    by (simp add: new_incident_def)
  ultimately show ?thesis using loc by auto
qed

text \<open>
  Claim C9, as amended. The sink leaves \<^verbatim>\<open>analyzing\<close> as it is for a body that is not an
  \<^verbatim>\<open>analyzed\<close> report, and clears it for one that is. For a draft with a non-empty location
  whose post succeeds, \<^verbatim>\<open>handleSubmit\<close> starts a session with that sink; as long as the
  component state is changed by the deliveries of that session only, \<^verbatim>\<open>analyzing\<close> is true
  exactly when the session has delivered no \<^verbatim>\<open>analyzed\<close> snapshot, through exhaustion,
  failure and stopping alike.
  The claim as stated fails because the flag is one state of the component, shared by
  every session: in the run below the first session ends on a rejected request with
  nothing delivered and the flag still true, and the \<^verbatim>\<open>analyzed\<close> snapshot of the session
  started by a second submit clears it.
\<close>

theorem analyzing_until_analyzed:
  assumes "location (form a) \<noteq> []"
  shows "(\<exists>s. handleSubmit (Some i) now a = Polling s \<and> onUpdate s = sink
      \<and> (\<forall>evs. analyzing (world (run evs s)) =
            (\<forall>x\<in>set (delivered (run evs s)). \<not> is_analyzed (snd x))))
    \<and> analyzing (left (sink b c)) = (analyzing c \<and> \<not> is_analyzed b)"
proof -
  from assms obtain s where s: "handleSubmit (Some i) now a = Polling s"
    by (simp add: handleSubmit_def Let_def)
  then have init: "onUpdate s = sink" "analyzing (world s)" "delivered s = []"
    by (auto simp: submit_defs Let_def split: if_splits)
  have "analyzing (world (run evs s)) =
      (\<forall>x\<in>set (delivered (run evs s)). \<not> is_analyzed (snd x))" for evs
    using init by (intro flag_run) simp_all
  with s init(1) analyzing_sink [of b c] show ?thesis by blast
qed

theorem analyzing_until_analyzed_witness:
  "location (form (new_incident ''123 Main St'' [])) \<noteq> []
   \<and> (\<exists>s. handleSubmit (Some 42) 0 (new_incident ''123 Main St'' []) = Polling s
        \<and> analyzing (world (run [Elapse 3000, Timer,
              Response 1 (Resolved (Some (report_with ''analyzing''))),
              Elapse 3000, Timer, Response 2 Rejected] s)))"
proof -
  let ?evs = "[Elapse 3000, Timer, Response 1 (Resolved (Some (report_with ''analyzing''))),
              Elapse 3000, Timer, Response 2 Rejected]"
  have loc: "location (form (new_incident ''123 Main St'' [])) \<noteq> []"
    by (simp add: new_incident_def)
  from analyzing_until_analyzed [OF loc, of 42 0]
  obtain s where s: "handleSubmit (Some 42) 0 (new_incident ''123 Main St'' []) = Polling s"
    and flag: "analyzing (world (run ?evs s)) =
      (\<forall>x\<in>set (delivered (run ?evs s)). \<not> is_analyzed (snd x))"
    by blast
  from s have "delivered (run ?evs s) = [(1, Some (report_with ''analyzing''))]"
    by (auto simp: submit_defs new_incident_def run_defs sink_def)
  with flag have "analyzing (world (run ?evs s))"
    by (simp add: report_with_def is_analyzed_def)
  with loc s show ?thesis by blast
qed

theorem analyzing_until_analyzed_counterexample:
  "map delivered (sessions (poll [Elapse 3000, Timer, Response 1 Rejected]
       (handleSubmit (Some 42) 0 (new_incident ''123 Main St'' [])))) = [[]]
   \<and> map interval (sessions (poll [Elapse 3000, Timer, Response 1 Rejected]
       (handleSubmit (Some 42) 0 (new_incident ''123 Main St'' [])))) = [None]
   \<and> map pending (sessions (poll [Elapse 3000, Timer, Response 1 Rejected]
       (handleSubmit (Some 42) 0 (new_incident ''123 Main St'' [])))) = [[]]
   \<and> analyzing (ui (poll [Elapse 3000, Timer, Response 1 Rejected]
       (handleSubmit (Some 42) 0 (new_incident ''123 Main St'' []))))
   \<and> \<not> analyzing (ui (poll [Elapse 3000, Timer, Response 1 (Resolved (Some (report_with ''analyzed'')))]
       (handleSubmit (Some 43) 9000
         (updateDraft Location ''9 Elm St''
           ((ui (poll [Elapse 3000, Timer, Response 1 Rejected]
               (handleSubmit (Some 42) 0 (new_incident ''123 Main St'' []))))
             \<lparr>view := ''new''\<rparr>)))))"
  by (simp add: submit_defs new_incident_def run_defs sink_def updateDraft_def
      fetchActiveDisasters_def)

end
